theory Spec2Isabelle
  imports Main "HOL-Library.Word"
begin

unbundle bit_operations_syntax

section \<open>Data model\<close>

text \<open>
  A Python \<open>str\<close> is a sequence of Unicode code points. The texts handled by the
  pipeline are Chinese, Cyrillic and Latin, so a string is modelled as the list of its
  code points (natural numbers below \<open>0x110000\<close>), not as a list of 8-bit characters.
  \<open>cps\<close> writes an ASCII literal as such a list.
\<close>

type_synonym pystr = "nat list"

definition cps :: "string \<Rightarrow> pystr" where
  "cps s = map of_char s"

section \<open>Line breaking (\<open>4_generate_translations.py\<close>: \<open>break_text_at_spaces\<close>)\<close>

text \<open>
  \<open>rfind_char c s start end\<close> is \<open>s.rfind(c, start, end)\<close> for a one-character
  needle and non-negative bounds: the highest index \<open>p\<close> with
  \<open>start \<le> p < min end (len s)\<close> and \<open>s[p] = c\<close>, or \<open>-1\<close>.
  \<open>str_join\<close> is \<open>sep.join(lines)\<close> and \<open>split_on c\<close> is \<open>s.split(c)\<close>.
  The \<open>while\<close> loop of \<open>break_text_at_spaces\<close> makes no progress for
  \<open>max_len = 0\<close>, so it is a partial function whose value \<open>None\<close> stands for
  "does not return". \<open>max_len\<close> is a natural number: the callers pass line widths.
\<close>

definition rfind_char :: "nat \<Rightarrow> pystr \<Rightarrow> nat \<Rightarrow> nat \<Rightarrow> int" where
  "rfind_char c s start end =
     (case filter (\<lambda>p. s ! p = c) (rev [start ..< min end (length s)]) of
        [] \<Rightarrow> - 1
      | p # _ \<Rightarrow> int p)"

fun str_join :: "'a list \<Rightarrow> 'a list list \<Rightarrow> 'a list" where
  "str_join sep [] = []"
| "str_join sep [x] = x"
| "str_join sep (x # y # ys) = x @ sep @ str_join sep (y # ys)"

fun split_on :: "'a \<Rightarrow> 'a list \<Rightarrow> 'a list list" where
  "split_on c [] = [[]]"
| "split_on c (x # xs) =
     (if x = c then [] # split_on c xs
      else (case split_on c xs of [] \<Rightarrow> [[x]] | l # ls \<Rightarrow> (x # l) # ls))"

partial_function (option) break_loop :: "pystr \<Rightarrow> nat \<Rightarrow> nat \<Rightarrow> pystr list \<Rightarrow> pystr list option" where
  "break_loop text_content max_len current_line_start_index lines =
     (if current_line_start_index < length text_content then
        if length text_content - current_line_start_index \<le> max_len
        then Some (lines @ [drop current_line_start_index text_content])
        else
          (let search_end_exclusive = current_line_start_index + max_len;
               possible_break_point =
                 rfind_char 32 text_content current_line_start_index (search_end_exclusive + 1)
           in if possible_break_point \<noteq> - 1 \<and> possible_break_point > int current_line_start_index
              then break_loop text_content max_len (nat possible_break_point + 1)
                     (lines @ [take (nat possible_break_point - current_line_start_index)
                                 (drop current_line_start_index text_content)])
              else break_loop text_content max_len (current_line_start_index + max_len)
                     (lines @ [take max_len (drop current_line_start_index text_content)]))
      else Some lines)"

definition break_text_at_spaces :: "pystr \<Rightarrow> nat \<Rightarrow> pystr option" where
  "break_text_at_spaces text_content max_len =
     (if length text_content \<le> max_len then Some text_content
      else map_option (str_join [10]) (break_loop text_content max_len 0 []))"

section \<open>Properties of line breaking\<close>

lemma rfind_char_range:
  assumes "rfind_char c s a b \<noteq> - 1"
  shows "int a \<le> rfind_char c s a b \<and> rfind_char c s a b < int (min b (length s))"
proof -
  let ?cands = "filter (\<lambda>p. s ! p = c) (rev [a ..< min b (length s)])"
  from assms obtain p ps where ps: "?cands = p # ps"
    by (cases ?cands) (auto simp: rfind_char_def)
  then have "p \<in> set ?cands" by simp
  then have "a \<le> p \<and> p < min b (length s)" by auto
  moreover from ps have "rfind_char c s a b = int p" by (simp add: rfind_char_def)
  ultimately show ?thesis by simp
qed

lemma break_loop_lines:
  assumes m: "1 \<le> m"
  shows "\<exists>ls. break_loop t m start lines = Some (lines @ ls) \<and> (\<forall>l \<in> set ls. length l \<le> m)"
proof (induction "length t - start" arbitrary: start lines rule: less_induct)
  case less
  show ?case
  proof (cases "start < length t")
    case False
    then show ?thesis by (subst break_loop.simps) simp
  next
    case inside: True
    show ?thesis
    proof (cases "length t - start \<le> m")
      case True
      with inside show ?thesis by (subst break_loop.simps) simp
    next
      case long: False
      let ?p = "rfind_char 32 t start (start + m + 1)"
      show ?thesis
      proof (cases "?p \<noteq> - 1 \<and> ?p > int start")
        case True
        then have rng: "int start \<le> ?p \<and> ?p < int (min (start + m + 1) (length t))"
          using rfind_char_range by blast
        let ?line = "take (nat ?p - start) (drop start t)"
        from True rng have "length t - (nat ?p + 1) < length t - start" by linarith
        from less [OF this, of "lines @ [?line]"]
        obtain ls where ls: "break_loop t m (nat ?p + 1) (lines @ [?line]) = Some ((lines @ [?line]) @ ls)"
          and bound: "\<forall>l \<in> set ls. length l \<le> m" by blast
        from rng have "length ?line \<le> m" by simp linarith
        with bound have "\<forall>l \<in> set (?line # ls). length l \<le> m" by simp
        moreover from inside long True ls
        have "break_loop t m start lines = Some (lines @ (?line # ls))"
          by (subst break_loop.simps) (simp add: Let_def)
        ultimately show ?thesis by blast
      next
        case False
        let ?line = "take m (drop start t)"
        from inside m have "length t - (start + m) < length t - start" by linarith
        from less [OF this, of "lines @ [?line]"]
        obtain ls where ls: "break_loop t m (start + m) (lines @ [?line]) = Some ((lines @ [?line]) @ ls)"
          and bound: "\<forall>l \<in> set ls. length l \<le> m" by blast
        have "length ?line \<le> m" by simp
        with bound have "\<forall>l \<in> set (?line # ls). length l \<le> m" by simp
        moreover from inside long False ls
        have "break_loop t m start lines = Some (lines @ (?line # ls))"
          by (subst break_loop.simps) (auto simp add: Let_def)
        ultimately show ?thesis by blast
      qed
    qed
  qed
qed

lemma split_on_nonempty: "split_on c xs \<noteq> []"
  by (induction xs) (auto split: list.splits)

lemma split_on_piece_length_all: "\<forall>p \<in> set (split_on c xs). length p \<le> length xs"
  by (induction xs) (auto split: list.splits simp: le_SucI)

lemma split_on_piece_length: "p \<in> set (split_on c xs) \<Longrightarrow> length p \<le> length xs"
  using split_on_piece_length_all [of c xs] by simp

lemma split_on_append_sep: "split_on c (xs @ c # ys) = split_on c xs @ split_on c ys"
  by (induction xs) (auto simp: split_on_nonempty split: list.splits)

lemma split_on_join:
  "sep = [c] \<Longrightarrow> ls \<noteq> [] \<Longrightarrow> split_on c (str_join sep ls) = concat (map (split_on c) ls)"
  by (induction sep ls rule: str_join.induct) (simp_all add: split_on_append_sep)

lemma split_on_join_pieces:
  "p \<in> set (split_on c (str_join [c] ls)) \<Longrightarrow> ls \<noteq> [] \<Longrightarrow> \<exists>l \<in> set ls. p \<in> set (split_on c l)"
  by (auto simp: split_on_join)

text \<open>
  C10: for every text \<open>t\<close> and every \<open>max_len \<ge> 1\<close> the line-breaking transform
  returns, every line of the result (split at the newline character 10) has at most
  \<open>max_len\<close> characters, and a text of at most \<open>max_len\<close> characters is returned
  unchanged.
\<close>

theorem break_text_at_spaces_lines:
  assumes "1 \<le> max_len"
  shows "\<exists>r. break_text_at_spaces t max_len = Some r
           \<and> (\<forall>l \<in> set (split_on 10 r). length l \<le> max_len)
           \<and> (length t \<le> max_len \<longrightarrow> r = t)"
proof (cases "length t \<le> max_len")
  case True
  have "\<forall>l \<in> set (split_on 10 t). length l \<le> length t"
    by (rule split_on_piece_length_all)
  with True have "\<forall>l \<in> set (split_on 10 t). length l \<le> max_len"
    by (meson le_trans)
  with True show ?thesis by (simp add: break_text_at_spaces_def)
next
  case False
  from break_loop_lines [OF assms, of t 0 "[]"]
  obtain ls where ls: "break_loop t max_len 0 [] = Some ls"
    and bound: "\<forall>l \<in> set ls. length l \<le> max_len"
    by (elim exE conjE) simp
  have pieces: "\<forall>p \<in> set (split_on 10 (str_join [10] ls)). length p \<le> max_len"
  proof
    fix p assume p: "p \<in> set (split_on 10 (str_join [10] ls))"
    show "length p \<le> max_len"
    proof (cases "ls = []")
      case True
      with p show ?thesis by simp
    next
      case False
      from split_on_join_pieces [OF p False]
      obtain l where l: "l \<in> set ls" and pl: "p \<in> set (split_on 10 l)" by (elim bexE)
      from pl have "length p \<le> length l" by (rule split_on_piece_length)
      moreover from bound l have "length l \<le> max_len" by (rule bspec)
      ultimately show ?thesis by (rule le_trans)
    qed
  qed
  from False ls have "break_text_at_spaces t max_len = Some (str_join [10] ls)"
    by (simp add: break_text_at_spaces_def)
  with pieces False show ?thesis by simp
qed

theorem break_text_at_spaces_lines_witness:
  "(1::nat) \<le> 7 \<and>
   (\<exists>r. break_text_at_spaces (cps ''hello world foo'') 7 = Some r
      \<and> (\<forall>l \<in> set (split_on 10 r). length l \<le> 7)
      \<and> (length (cps ''hello world foo'') \<le> 7 \<longrightarrow> r = cps ''hello world foo''))"
  using break_text_at_spaces_lines [of 7 "cps ''hello world foo''"] by simp

end
